theory Spec2Isabelle
  imports Complex_Main "HOL-Library.Word"
begin

section \<open>Numbers\<close>

text \<open>
  The numbers of \<open>src/App.js\<close> are modelled as reals: every arithmetic step is exact.
  What real arithmetic cannot show, the non-finite results of a division by zero and of
  \<open>Math.pow\<close>, is written out in the type \<open>num\<close>. Rounding is looked at in the section
  on doubles, for \<open>lerp\<close> only.
\<close>

datatype num = Num real | PosInf | NegInf | NaN

text \<open>\<open>x / y\<close> on finite operands; the divisor zero gives an infinity or \<open>NaN\<close>.\<close>

definition js_div :: "real \<Rightarrow> real \<Rightarrow> num" where
  "js_div x y =
     (if y \<noteq> 0 then Num (x / y)
      else if 0 < x then PosInf
      else if x < 0 then NegInf
      else NaN)"

text \<open>\<open>Math.min(a, t)\<close> with a finite second argument.\<close>

definition Math_min :: "num \<Rightarrow> real \<Rightarrow> num" where
  "Math_min a t =
     (case a of Num r \<Rightarrow> Num (min r t) | PosInf \<Rightarrow> Num t | NegInf \<Rightarrow> NegInf | NaN \<Rightarrow> NaN)"


text \<open>
  \<open>Math.pow(x, y)\<close> on finite operands: \<open>pow(x, 0)\<close> is 1 for every \<open>x\<close>, a zero base
  with a negative exponent gives infinity, a negative base needs an integer exponent.
\<close>

definition Math_pow :: "real \<Rightarrow> real \<Rightarrow> num" where
  "Math_pow x y =
     (if y = 0 then Num 1
      else if 0 < x then Num (x powr y)
      else if x = 0 then (if 0 < y then Num 0 else PosInf)
      else if of_int \<lfloor>y\<rfloor> = y
        then Num (if even \<lfloor>y\<rfloor> then (- x) powr y else - ((- x) powr y))
      else NaN)"

section \<open>Utility helpers\<close>

definition clamp :: "real \<Rightarrow> real \<Rightarrow> real \<Rightarrow> real" where
  "clamp v mn mx = max mn (min mx v)"

definition lerp :: "real \<Rightarrow> real \<Rightarrow> real \<Rightarrow> real" where
  "lerp a b t = a + (b - a) * t"

text \<open>
  \<open>clamp(v, 0, 1)\<close> on a result of \<open>Math.pow\<close>: \<open>Math.min\<close> and \<open>Math.max\<close> hand a
  \<open>NaN\<close> on, written \<open>None\<close>; an infinity is cut to the bound.
\<close>

definition clamp01 :: "num \<Rightarrow> real option" where
  "clamp01 v =
     (case v of Num r \<Rightarrow> Some (clamp r 0 1) | PosInf \<Rightarrow> Some 1 | NegInf \<Rightarrow> Some 0
      | NaN \<Rightarrow> None)"

section \<open>Doubles\<close>

text \<open>
  What rounding does to \<open>lerp\<close> is settled on a model of the double format: the result
  of an operation is the nearest number of 53 significant bits, a tie going to the even
  one. Overflow and subnormal numbers are left out.
\<close>

text \<open>The nearest integer, a tie going to the even one.\<close>

definition rne :: "real \<Rightarrow> int" where
  "rne x =
     (let f = \<lfloor>x\<rfloor>
      in if x - of_int f < 1 / 2 then f
         else if 1 / 2 < x - of_int f then f + 1
         else if even f then f else f + 1)"

text \<open>The double nearest to a real.\<close>

definition fl :: "real \<Rightarrow> real" where
  "fl x =
     (if x = 0 then 0
      else (let e = \<lfloor>log 2 \<bar>x\<bar>\<rfloor> - 52
            in of_int (rne (x / 2 powr of_int e)) * 2 powr of_int e))"

text \<open>\<open>lerp\<close> of line 7 with each operation rounded.\<close>

definition lerp_fl :: "real \<Rightarrow> real \<Rightarrow> real \<Rightarrow> real" where
  "lerp_fl a b t = fl (a + fl (fl (b - a) * t))"

section \<open>Controls\<close>

record params =
  turns :: real
  lineSpacing :: real
  minWidth :: real
  maxWidth :: real
  gamma :: real
  invert :: bool
  cropToCircle :: bool
  resolution :: nat

definition defaults :: params where
  "defaults = \<lparr> turns = 140, lineSpacing = 3, minWidth = 0.6, maxWidth = 4.2,
     gamma = 1.15, invert = False, cropToCircle = True, resolution = 2048 \<rparr>"

section \<open>The image sampler\<close>

type_synonym byte = "8 word"

text \<open>
  \<open>data[i]\<close> on the byte array of \<open>getImageData\<close>: an index outside the array reads
  \<open>undefined\<close>, written \<open>None\<close>.
\<close>

definition rd :: "byte list \<Rightarrow> int \<Rightarrow> real option" where
  "rd data i = (if 0 \<le> i \<and> i < int (length data) then Some (real (unat (data ! nat i))) else None)"

text \<open>The pixel index of one axis: \<open>Math.floor(clamp(v, 0, size - 1))\<close>.\<close>

definition px :: "nat \<Rightarrow> real \<Rightarrow> int" where
  "px sz v = \<lfloor>clamp v 0 (real sz - 1)\<rfloor>"

text \<open>
  \<open>sample(x, y)\<close>, lines 109 to 121. Arithmetic on \<open>undefined\<close> gives \<open>NaN\<close>, which
  \<open>Math.pow\<close> and \<open>clamp\<close> hand on: the result is then \<open>None\<close>.
\<close>

definition sample :: "params \<Rightarrow> byte list \<Rightarrow> real \<Rightarrow> real \<Rightarrow> real option" where
  "sample P data x y =
     (let sz = resolution P;
          ix = px sz x;
          iy = px sz y;
          idx = (iy * int sz + ix) * 4
      in case (rd data (idx + 0), rd data (idx + 1), rd data (idx + 2)) of
           (Some r, Some g, Some b) \<Rightarrow>
             (let lum = 0.2126 * r + 0.7152 * g + 0.0722 * b;
                  lum = lum / 255;
                  lum = (if invert P then 1 - lum else lum)
              in clamp01 (Math_pow lum (gamma P)))
         | _ \<Rightarrow> None)"

text \<open>The three indices that \<open>sample(x, y)\<close> reads.\<close>

definition reads :: "params \<Rightarrow> real \<Rightarrow> real \<Rightarrow> int list" where
  "reads P x y =
     (let sz = resolution P;
          idx = (px sz y * int sz + px sz x) * 4
      in [idx + 0, idx + 1, idx + 2])"

text \<open>The luminance of line 117, and lines 116 to 119 on the three bytes read.\<close>

definition luminance :: "real \<Rightarrow> real \<Rightarrow> real \<Rightarrow> real" where
  "luminance r g b = (0.2126 * r + 0.7152 * g + 0.0722 * b) / 255"

definition tone :: "bool \<Rightarrow> real \<Rightarrow> real \<Rightarrow> real \<Rightarrow> real \<Rightarrow> real option" where
  "tone iv gam r g b =
     clamp01 (Math_pow (if iv then 1 - luminance r g b else luminance r g b) gam)"

text \<open>
  The contract of the specification for \<open>sampleLuminance\<close>, in its words and with the
  power of the library: the weighted sum normalised to the unit interval, then the
  inversion, then the power \<open>gamma\<close>, then the clamp to the unit interval. Zero to a power
  that is not positive is 1 or infinite, which the clamp makes 1.
\<close>

definition sampleLuminance_spec :: "bool \<Rightarrow> real \<Rightarrow> real \<Rightarrow> real \<Rightarrow> real \<Rightarrow> real" where
  "sampleLuminance_spec iv gam r g b =
     (let l = (0.2126 * r + 0.7152 * g + 0.0722 * b) / 255;
          l = (if iv then 1 - l else l)
      in if l = 0 \<and> gam \<le> 0 then 1 else max 0 (min 1 (l powr gam)))"

text \<open>The raw brightness of a pixel: the weighted sum of line 116.\<close>

definition brightness :: "byte list \<Rightarrow> int \<Rightarrow> real" where
  "brightness data idx =
     0.2126 * real (unat (data ! nat idx)) + 0.7152 * real (unat (data ! nat (idx + 1)))
       + 0.0722 * real (unat (data ! nat (idx + 2)))"

text \<open>The stroke width of a sample, lines 159 and 160.\<close>

definition strokeWidth :: "params \<Rightarrow> real \<Rightarrow> real" where
  "strokeWidth P lum = (let shade = 1 - lum in lerp (minWidth P) (maxWidth P) shade)"

text \<open>The doubles that the literals \<open>1.9\<close> and \<open>6.3\<close> denote, and controls with these widths.\<close>

definition w19 :: real where
  "w19 = fl (19 / 10)"

definition w63 :: real where
  "w63 = fl (63 / 10)"

definition Pfl :: params where
  "Pfl = defaults \<lparr> minWidth := w19, maxWidth := w63 \<rparr>"

text \<open>A two by two working buffer of one grey level, and the controls that go with it.\<close>

definition P2 :: params where
  "P2 = defaults \<lparr> gamma := 1, resolution := 2 \<rparr>"

definition grey2 :: "byte \<Rightarrow> byte list" where
  "grey2 v = replicate 16 v"

section \<open>The hidden canvas\<close>

type_synonym rgba = "byte \<times> byte \<times> byte \<times> byte"

text \<open>A bitmap gives the pixel of a column and a row.\<close>

type_synonym bitmap = "nat \<Rightarrow> nat \<Rightarrow> rgba"

record image =
  width :: nat
  height :: nat
  pixels :: bitmap

text \<open>
  The platform's \<open>drawImage\<close> is a parameter: for the image, the rectangle it is drawn into
  and the pixel that was there, it gives the new pixel at a column and a row.
\<close>

type_synonym scaler = "image \<Rightarrow> real \<Rightarrow> real \<Rightarrow> real \<Rightarrow> real \<Rightarrow> nat \<Rightarrow> nat \<Rightarrow> rgba \<Rightarrow> rgba"

text \<open>Setting \<open>hcan.width\<close> and \<open>clearRect(0, 0, size, size)\<close> both leave transparent black.\<close>

definition cleared :: bitmap where
  "cleared = (\<lambda>col row. (0, 0, 0, 0))"

text \<open>Lines 97 to 101: the rectangle \<open>(dx, dy, drawW, drawH)\<close> the image is drawn into.\<close>

definition fit :: "image \<Rightarrow> nat \<Rightarrow> real \<times> real \<times> real \<times> real" where
  "fit img sz =
     (let scale = min (real sz / real (width img)) (real sz / real (height img));
          drawW = real (width img) * scale;
          drawH = real (height img) * scale;
          dx = (real sz - drawW) / 2;
          dy = (real sz - drawH) / 2
      in (dx, dy, drawW, drawH))"

text \<open>A pixel is touched by a rectangle when its unit square meets the rectangle's inside.\<close>

definition touched :: "real \<times> real \<times> real \<times> real \<Rightarrow> nat \<Rightarrow> nat \<Rightarrow> bool" where
  "touched rect col row =
     (case rect of (dx, dy, dw, dh) \<Rightarrow>
        dx < real col + 1 \<and> real col < dx + dw \<and> dy < real row + 1 \<and> real row < dy + dh)"

text \<open>
  \<open>hctx.drawImage(img, dx, dy, drawW, drawH)\<close>: pixels the rectangle does not touch keep
  their value; an image with no columns or no rows is not drawn at all.
\<close>

definition drawImage :: "scaler \<Rightarrow> image \<Rightarrow> real \<times> real \<times> real \<times> real \<Rightarrow> bitmap \<Rightarrow> bitmap" where
  "drawImage dI img rect bm =
     (if width img = 0 \<or> height img = 0 then bm
      else (\<lambda>col row.
        if touched rect col row
        then (case rect of (dx, dy, dw, dh) \<Rightarrow> dI img dx dy dw dh col row (bm col row))
        else bm col row))"

text \<open>\<open>getImageData(0, 0, size, size).data\<close>: four bytes for each pixel, row after row.\<close>

definition getImageData :: "nat \<Rightarrow> bitmap \<Rightarrow> byte list" where
  "getImageData sz bm =
     concat (map (\<lambda>i. case bm (i mod sz) (i div sz) of (r, g, b, a) \<Rightarrow> [r, g, b, a])
                 [0..<sz * sz])"

text \<open>
  Lines 87 to 107, from a hidden canvas with any earlier content \<open>h0\<close>: the new bitmap of
  the hidden canvas.
\<close>

definition prepare :: "scaler \<Rightarrow> image \<Rightarrow> nat \<Rightarrow> bitmap \<Rightarrow> bitmap" where
  "prepare dI img sz h0 =
     (let h1 = cleared;
          rect = fit img sz;
          h2 = cleared
      in drawImage dI img rect h2)"

section \<open>The visible canvas\<close>

datatype seg = MoveTo real real | LineTo real real | Arc real real real real real

text \<open>The drawing state that \<open>save\<close> and \<open>restore\<close> keep.\<close>

record gstate =
  fillStyle :: string
  strokeStyle :: string
  lineWidth :: real
  lineCap :: string
  lineJoin :: string
  origin :: "real \<times> real"
  clipRegion :: "seg list list"

text \<open>What has been painted since the canvas was last reset.\<close>

datatype paint =
    FillRect string real real real real "seg list list"
  | Stroke "seg list" real string string string "seg list list"

record canvas =
  side :: nat
  gs :: gstate
  stack :: "gstate list"
  path :: "seg list"
  painted :: "paint list"

definition gstate0 :: gstate where
  "gstate0 = \<lparr> fillStyle = ''#000'', strokeStyle = ''#000'', lineWidth = 1,
     lineCap = ''butt'', lineJoin = ''miter'', origin = (0, 0), clipRegion = [] \<rparr>"

text \<open>
  \<open>canvas.width = size; canvas.height = size\<close>: the bitmap, the drawing state, the stack
  and the path start afresh.
\<close>

definition resize :: "nat \<Rightarrow> canvas \<Rightarrow> canvas" where
  "resize sz c = \<lparr> side = sz, gs = gstate0, stack = [], path = [], painted = [] \<rparr>"

definition save :: "canvas \<Rightarrow> canvas" where
  "save c = c \<lparr> stack := gs c # stack c \<rparr>"

definition restore :: "canvas \<Rightarrow> canvas" where
  "restore c = (case stack c of [] \<Rightarrow> c | g # st \<Rightarrow> c \<lparr> gs := g, stack := st \<rparr>)"

definition fillRect :: "real \<Rightarrow> real \<Rightarrow> real \<Rightarrow> real \<Rightarrow> canvas \<Rightarrow> canvas" where
  "fillRect x y w h c =
     c \<lparr> painted := painted c @
           [FillRect (fillStyle (gs c)) (x + fst (origin (gs c))) (y + snd (origin (gs c))) w h
              (clipRegion (gs c))] \<rparr>"

definition beginPath :: "canvas \<Rightarrow> canvas" where
  "beginPath c = c \<lparr> path := [] \<rparr>"

definition arc :: "real \<Rightarrow> real \<Rightarrow> real \<Rightarrow> real \<Rightarrow> real \<Rightarrow> canvas \<Rightarrow> canvas" where
  "arc x y r a0 a1 c =
     c \<lparr> path := path c @ [Arc (x + fst (origin (gs c))) (y + snd (origin (gs c))) r a0 a1] \<rparr>"

definition clip :: "canvas \<Rightarrow> canvas" where
  "clip c = c \<lparr> gs := (gs c) \<lparr> clipRegion := path c # clipRegion (gs c) \<rparr> \<rparr>"

definition translate :: "real \<Rightarrow> real \<Rightarrow> canvas \<Rightarrow> canvas" where
  "translate tx ty c =
     c \<lparr> gs := (gs c) \<lparr> origin := (fst (origin (gs c)) + tx, snd (origin (gs c)) + ty) \<rparr> \<rparr>"

definition moveTo :: "real \<Rightarrow> real \<Rightarrow> canvas \<Rightarrow> canvas" where
  "moveTo x y c =
     c \<lparr> path := path c @ [MoveTo (x + fst (origin (gs c))) (y + snd (origin (gs c)))] \<rparr>"

text \<open>\<open>lineTo\<close> on a path with no point yet only sets the starting point.\<close>

definition lineTo :: "real \<Rightarrow> real \<Rightarrow> canvas \<Rightarrow> canvas" where
  "lineTo x y c =
     (if path c = [] then moveTo x y c
      else c \<lparr> path := path c @ [LineTo (x + fst (origin (gs c))) (y + snd (origin (gs c)))] \<rparr>)"

text \<open>
  \<open>ctx.lineWidth = w\<close>: the platform ignores a value that is \<open>NaN\<close> (\<open>None\<close>), zero or
  negative.
\<close>

definition set_lineWidth :: "real option \<Rightarrow> canvas \<Rightarrow> canvas" where
  "set_lineWidth w c =
     (case w of None \<Rightarrow> c
      | Some v \<Rightarrow> if 0 < v then c \<lparr> gs := (gs c) \<lparr> lineWidth := v \<rparr> \<rparr> else c)"

text \<open>
  \<open>ctx.stroke()\<close> paints the whole current path with the drawing state it finds at the
  call: one line width for every segment.
\<close>

definition stroke :: "canvas \<Rightarrow> canvas" where
  "stroke c =
     c \<lparr> painted := painted c @
           [Stroke (path c) (lineWidth (gs c)) (lineCap (gs c)) (lineJoin (gs c))
              (strokeStyle (gs c)) (clipRegion (gs c))] \<rparr>"

section \<open>The spiral\<close>

definition dTheta :: real where
  "dTheta = 0.015"

text \<open>Lines 130 to 134.\<close>

definition b_of :: "params \<Rightarrow> real" where
  "b_of P = lineSpacing P / (2 * pi)"

definition maxR :: "params \<Rightarrow> real" where
  "maxR P = real (resolution P) / 2 - maxWidth P * 1.5"

definition maxTheta :: "params \<Rightarrow> num" where
  "maxTheta P = Math_min (js_div (maxR P) (b_of P)) (pi * 2 * turns P)"

text \<open>Lines 152 to 160: the point of the spiral at an angle, and the stroke width there.\<close>

definition point :: "params \<Rightarrow> real \<Rightarrow> real \<times> real" where
  "point P theta = (let r = b_of P * theta in (r * cos theta, r * sin theta))"

definition widthAt :: "params \<Rightarrow> byte list \<Rightarrow> real \<Rightarrow> real option" where
  "widthAt P data theta =
     (let cx = real (resolution P) / 2;
          cy = real (resolution P) / 2;
          (x, y) = point P theta;
          ix = x + cx;
          iy = y + cy
      in map_option (strokeWidth P) (sample P data ix iy))"

text \<open>
  The loop of lines 151 to 176, for a finite \<open>maxTheta\<close>. The variables \<open>lastX\<close>,
  \<open>lastY\<close> and \<open>currentWidth\<close> are written and never read.
\<close>

function spiral :: "params \<Rightarrow> byte list \<Rightarrow> real \<Rightarrow> real \<Rightarrow> bool \<Rightarrow> canvas \<Rightarrow> canvas" where
  "spiral P data mt theta first c =
     (if theta < mt then
        (let (x, y) = point P theta;
             w = widthAt P data theta;
             c' = (if first then moveTo x y c else lineTo x y (set_lineWidth w c))
         in spiral P data mt (theta + dTheta) False c')
      else c)"
  by pat_completeness auto
termination
proof (relation "measure (\<lambda>(P, data, mt, theta, first, c). nat \<lceil>(mt - theta) / dTheta\<rceil>)")
  show "wf (measure (\<lambda>(P, data, mt, theta, first, c). nat \<lceil>(mt - theta) / dTheta\<rceil>))"
    by simp
next
  fix P :: params and data :: "byte list" and mt theta :: real and first :: bool
    and c :: canvas and xa :: "real \<times> real" and x y :: real and xb :: "real option"
    and xc :: canvas
  assume lt: "theta < mt"
  have "(mt - (theta + dTheta)) / dTheta = (mt - theta) / dTheta - 1"
    by (simp add: dTheta_def field_simps)
  then have e: "\<lceil>(mt - (theta + dTheta)) / dTheta\<rceil> = \<lceil>(mt - theta) / dTheta\<rceil> - 1"
    by simp
  have "0 < (mt - theta) / dTheta"
    using lt by (simp add: dTheta_def)
  then have "0 < \<lceil>(mt - theta) / dTheta\<rceil>"
    by (simp add: ceiling_less_iff)
  then show "((P, data, mt, theta + dTheta, False, xc), (P, data, mt, theta, first, c))
      \<in> measure (\<lambda>(P, data, mt, theta, first, c). nat \<lceil>(mt - theta) / dTheta\<rceil>)"
    using e by simp
qed

declare spiral.simps [simp del]

text \<open>
  The loop for any \<open>maxTheta\<close>: no pass when it is \<open>NaN\<close> or minus infinity; with plus
  infinity the loop would not end, written \<open>None\<close>.
\<close>

definition walk :: "params \<Rightarrow> byte list \<Rightarrow> canvas \<Rightarrow> canvas option" where
  "walk P data c =
     (case maxTheta P of
        Num mt \<Rightarrow> Some (spiral P data mt 0 True c)
      | PosInf \<Rightarrow> None
      | NegInf \<Rightarrow> Some c
      | NaN \<Rightarrow> Some c)"

text \<open>
  What \<open>renderSpiral\<close> can throw: \<open>getImageData\<close> on an empty rectangle and \<open>arc\<close> with
  a negative radius raise \<open>IndexSizeError\<close>. \<open>Unending\<close> stands for a loop that does not
  return.
\<close>

datatype error = IndexSizeError | Unending

text \<open>
  \<open>renderSpiral\<close>, lines 75 to 181, on the visible canvas \<open>c0\<close> and the hidden bitmap
  \<open>h0\<close> as an earlier render left them. Without an image it returns at once. The
  component's flags \<open>busy\<close>, \<open>error\<close> and \<open>downloadURL\<close> and the encoding of the bitmap
  by \<open>toBlob\<close> are left out: the result is what has been painted.
\<close>

definition renderSpiral ::
  "scaler \<Rightarrow> image option \<Rightarrow> params \<Rightarrow> canvas \<times> bitmap \<Rightarrow> error + canvas \<times> bitmap" where
  "renderSpiral dI img P s =
     (case img of None \<Rightarrow> Inr s
      | Some im \<Rightarrow>
        (case s of (c0, h0) \<Rightarrow>
          (let sz = resolution P;
               c = resize sz c0;
               c = save c;
               c = c \<lparr> gs := (gs c) \<lparr> fillStyle := ''#fff'' \<rparr> \<rparr>;
               c = fillRect 0 0 (real sz) (real sz) c;
               c = restore c;
               h = prepare dI im sz h0
           in if sz = 0 then Inl IndexSizeError
              else
               (let data = getImageData sz h
                in if cropToCircle P \<and> real sz / 2 - maxWidth P < 0 then Inl IndexSizeError
                   else
                    (let c = (if cropToCircle P
                              then clip (arc (real sz / 2) (real sz / 2)
                                          (real sz / 2 - maxWidth P) 0 (pi * 2)
                                          (beginPath (save c)))
                              else c);
                         cx = real sz / 2;
                         cy = real sz / 2;
                         c = save c;
                         c = translate cx cy c;
                         c = c \<lparr> gs := (gs c) \<lparr> lineCap := ''round'', lineJoin := ''round'',
                                                strokeStyle := ''#000'' \<rparr> \<rparr>;
                         c = beginPath c
                     in case walk P data c of
                          None \<Rightarrow> Inl Unending
                        | Some c \<Rightarrow>
                            (let c = stroke c;
                                 c = restore c;
                                 c = (if cropToCircle P then restore c else c)
                             in Inr (c, h)))))))"

text \<open>Controls for a buffer of one pixel, and two such buffers that differ in alpha only.\<close>

definition P1 :: params where
  "P1 = defaults \<lparr> resolution := 1 \<rparr>"

definition opaque1 :: "byte list" where
  "opaque1 = [10, 20, 30, 255]"

definition clear1 :: "byte list" where
  "clear1 = [10, 20, 30, 0]"

text \<open>The path a render leaves on the visible canvas, if it returns.\<close>

definition result_path :: "error + canvas \<times> bitmap \<Rightarrow> seg list option" where
  "result_path r = (case r of Inl e \<Rightarrow> None | Inr s \<Rightarrow> Some (path (fst s)))"

text \<open>
  A scaler for examples: each pixel of the rectangle takes the image pixel under its
  centre.
\<close>

definition nearest :: scaler where
  "nearest img dx dy dw dh col row bg =
     pixels img (nat \<lfloor>(real col + 1 / 2 - dx) * real (width img) / dw\<rfloor>)
                (nat \<lfloor>(real row + 1 / 2 - dy) * real (height img) / dh\<rfloor>)"

text \<open>An image of one black pixel, and a canvas as the page first creates it.\<close>

definition black1 :: image where
  "black1 = \<lparr> width = 1, height = 1, pixels = (\<lambda>col row. (0, 0, 0, 255)) \<rparr>"

definition canvas0 :: canvas where
  "canvas0 = \<lparr> side = 300, gs = gstate0, stack = [], path = [], painted = [] \<rparr>"


text \<open>The default controls with \<open>turns\<close> set to 0.\<close>

definition P0 :: params where
  "P0 = defaults \<lparr> turns := 0 \<rparr>"

text \<open>
  Controls and an image for a render of three samples: a buffer of side 3 whose pixel in
  column 2 of row 1 is white, all others black.
\<close>

definition P3 :: params where
  "P3 = \<lparr> turns = 1, lineSpacing = 160, minWidth = 0.06, maxWidth = 0.42,
     gamma = 1.15, invert = False, cropToCircle = False, resolution = 3 \<rparr>"

definition img3 :: image where
  "img3 = \<lparr> width = 3, height = 3,
     pixels = (\<lambda>col row. if col = 2 \<and> row = 1 then (255, 255, 255, 255) else (0, 0, 0, 255)) \<rparr>"

definition data3 :: "byte list" where
  "data3 = getImageData 3 (prepare nearest img3 3 cleared)"


text \<open>
  The width each straight segment is painted with: a stroke paints every segment of its
  path with its one line width.
\<close>

definition segments :: "seg list \<Rightarrow> nat" where
  "segments p = length (filter (\<lambda>s. case s of LineTo x y \<Rightarrow> True | _ \<Rightarrow> False) p)"

fun segment_widths :: "paint list \<Rightarrow> real list" where
  "segment_widths [] = []"
| "segment_widths (FillRect style x y w h cl # ps) = segment_widths ps"
| "segment_widths (Stroke p w cap join style cl # ps) = replicate (segments p) w @ segment_widths ps"

definition result_painted :: "error + canvas \<times> bitmap \<Rightarrow> paint list option" where
  "result_painted r = (case r of Inl e \<Rightarrow> None | Inr s \<Rightarrow> Some (painted (fst s)))"

section \<open>Properties of the sampler\<close>

lemma px_range:
  assumes "0 < sz"
  shows "0 \<le> px sz v" and "px sz v \<le> int sz - 1"
proof -
  have "0 \<le> clamp v 0 (real sz - 1)"
    by (simp add: clamp_def)
  then show "0 \<le> px sz v"
    by (simp add: px_def)
  have "clamp v 0 (real sz - 1) \<le> real sz - 1"
    using assms by (simp add: clamp_def)
  then have "\<lfloor>clamp v 0 (real sz - 1)\<rfloor> \<le> \<lfloor>real sz - 1\<rfloor>"
    by (rule floor_mono)
  moreover have "\<lfloor>real sz - 1\<rfloor> = int sz - 1"
    by (metis floor_of_int of_int_1 of_int_diff of_int_of_nat_eq)
  ultimately show "px sz v \<le> int sz - 1"
    by (simp add: px_def)
qed

lemma index_range:
  assumes "0 < sz"
  shows "0 \<le> (px sz y * int sz + px sz x) * 4"
    and "(px sz y * int sz + px sz x) * 4 + 3 < int (sz * sz * 4)"
proof -
  let ?ix = "px sz x" and ?iy = "px sz y"
  note bx = px_range [OF assms, of x] and by' = px_range [OF assms, of y]
  show "0 \<le> (?iy * int sz + ?ix) * 4"
    using bx(1) by'(1) by simp
  have "?iy * int sz \<le> (int sz - 1) * int sz"
    using by'(2) by (simp add: mult_right_mono)
  then have "?iy * int sz + ?ix \<le> (int sz - 1) * int sz + (int sz - 1)"
    using bx(2) by linarith
  also have "\<dots> = int sz * int sz - 1"
    by (simp add: algebra_simps)
  finally show "(?iy * int sz + ?ix) * 4 + 3 < int (sz * sz * 4)"
    by simp
qed

lemma rd_Some:
  "0 \<le> i \<Longrightarrow> i < int (length data) \<Longrightarrow> rd data i = Some (real (unat (data ! nat i)))"
  by (simp add: rd_def)

lemma byte_le: "real (unat (w :: byte)) \<le> 255"
proof -
  have "unat w < 2 ^ LENGTH(8)"
    by (rule unsigned_less)
  then have "unat w \<le> 255"
    by simp
  then have "real (unat w) \<le> real 255"
    by (rule of_nat_mono)
  then show ?thesis by simp
qed

lemma luminance_unit:
  assumes "0 \<le> r" "r \<le> 255" "0 \<le> g" "g \<le> 255" "0 \<le> b" "b \<le> 255"
  shows "0 \<le> luminance r g b" and "luminance r g b \<le> 1"
  using assms by (simp_all add: luminance_def)

lemma clamp01_pow_unit:
  assumes "0 \<le> l"
  shows "\<exists>v. clamp01 (Math_pow l gam) = Some v \<and> 0 \<le> v \<and> v \<le> 1"
  using assms by (auto simp: clamp01_def Math_pow_def clamp_def)

lemma sample_in_range:
  assumes "0 < resolution P" and "length data = resolution P * resolution P * 4"
  shows "sample P data x y =
           tone (invert P) (gamma P)
             (real (unat (data ! nat ((px (resolution P) y * int (resolution P) + px (resolution P) x) * 4))))
             (real (unat (data ! nat ((px (resolution P) y * int (resolution P) + px (resolution P) x) * 4 + 1))))
             (real (unat (data ! nat ((px (resolution P) y * int (resolution P) + px (resolution P) x) * 4 + 2))))"
proof -
  let ?idx = "(px (resolution P) y * int (resolution P) + px (resolution P) x) * 4"
  note ir = index_range [OF assms(1), of y x]
  have r0: "rd data (?idx + 0) = Some (real (unat (data ! nat ?idx)))"
    using ir assms(2) by (simp add: rd_def)
  have r1: "rd data (?idx + 1) = Some (real (unat (data ! nat (?idx + 1))))"
    using ir assms(2) by (simp add: rd_def)
  have r2: "rd data (?idx + 2) = Some (real (unat (data ! nat (?idx + 2))))"
    using ir assms(2) by (simp add: rd_def)
  show ?thesis
    unfolding sample_def Let_def r0 r1 r2
    by (simp add: tone_def luminance_def)
qed


lemma px_nonneg: "0 \<le> px sz v"
  by (simp add: px_def clamp_def)

lemma floor_min: "\<lfloor>min a b\<rfloor> = min \<lfloor>a\<rfloor> \<lfloor>b :: real\<rfloor>"
proof (cases "a \<le> b")
  case True
  then have "\<lfloor>a\<rfloor> \<le> \<lfloor>b\<rfloor>"
    by (rule floor_mono)
  with True show ?thesis
    by (simp add: min_absorb1)
next
  case False
  then have le: "b \<le> a"
    by simp
  then have "\<lfloor>b\<rfloor> \<le> \<lfloor>a\<rfloor>"
    by (rule floor_mono)
  with le show ?thesis
    by (simp add: min_absorb2)
qed

lemma floor_max: "\<lfloor>max a b\<rfloor> = max \<lfloor>a\<rfloor> \<lfloor>b :: real\<rfloor>"
proof (cases "a \<le> b")
  case True
  then have "\<lfloor>a\<rfloor> \<le> \<lfloor>b\<rfloor>"
    by (rule floor_mono)
  with True show ?thesis
    by (simp add: max_absorb2)
next
  case False
  then have le: "b \<le> a"
    by simp
  then have "\<lfloor>b\<rfloor> \<le> \<lfloor>a\<rfloor>"
    by (rule floor_mono)
  with le show ?thesis
    by (simp add: max_absorb1)
qed

lemma px_floor_first:
  assumes "0 < sz"
  shows "px sz v = max 0 (min (int sz - 1) \<lfloor>v\<rfloor>)"
proof -
  have m: "\<lfloor>real sz - 1\<rfloor> = int sz - 1"
    by (metis floor_of_int of_int_1 of_int_diff of_int_of_nat_eq)
  show ?thesis
    unfolding px_def clamp_def floor_max floor_min m by simp
qed

lemma Math_pow_one: "Math_pow x 1 = Num x"
  by (simp add: Math_pow_def)

lemma sample_unit:
  assumes "0 < resolution P" and "length data = resolution P * resolution P * 4"
  shows "\<exists>v. sample P data x y = Some v \<and> 0 \<le> v \<and> v \<le> 1"
proof -
  let ?idx = "(px (resolution P) y * int (resolution P) + px (resolution P) x) * 4"
  let ?r = "real (unat (data ! nat ?idx))"
  let ?g = "real (unat (data ! nat (?idx + 1)))"
  let ?b = "real (unat (data ! nat (?idx + 2)))"
  have lo: "0 \<le> luminance ?r ?g ?b"
    by (rule luminance_unit(1)) (rule of_nat_0_le_iff byte_le)+
  have hi: "luminance ?r ?g ?b \<le> 1"
    by (rule luminance_unit(2)) (rule of_nat_0_le_iff byte_le)+
  have "0 \<le> (if invert P then 1 - luminance ?r ?g ?b else luminance ?r ?g ?b)"
    using lo hi by simp
  then show ?thesis
    unfolding sample_in_range [OF assms] tone_def
    by (rule clamp01_pow_unit)
qed

text \<open>
  C3. For every pair of real coordinates, inside the working buffer or not, \<open>sample\<close>
  returns a value of the unit interval; each coordinate is floored and clamped on its own
  to a pixel index between 0 and \<open>resolution - 1\<close> (the code clamps first and floors
  then, which gives the same index), and the three indices read lie inside the byte array. The buffer is the one \<open>getImageData\<close> delivers: \<open>resolution\<close> is positive
  and the array holds four bytes for each pixel.
\<close>

theorem sample_clamps:
  assumes "0 < resolution P" and "length data = resolution P * resolution P * 4"
  shows "(\<exists>v. sample P data x y = Some v \<and> 0 \<le> v \<and> v \<le> 1)
         \<and> 0 \<le> px (resolution P) x \<and> px (resolution P) x \<le> int (resolution P) - 1
         \<and> 0 \<le> px (resolution P) y \<and> px (resolution P) y \<le> int (resolution P) - 1
         \<and> px (resolution P) x = max 0 (min (int (resolution P) - 1) \<lfloor>x\<rfloor>)
         \<and> px (resolution P) y = max 0 (min (int (resolution P) - 1) \<lfloor>y\<rfloor>)
         \<and> (\<forall>i \<in> set (reads P x y). 0 \<le> i \<and> i < int (length data))"
proof -
  note ir = index_range [OF assms(1), of y x]
  have "\<forall>i \<in> set (reads P x y). 0 \<le> i \<and> i < int (length data)"
    using ir assms(2) by (simp add: reads_def Let_def)
  then show ?thesis
    using sample_unit [OF assms] px_range [OF assms(1)] px_floor_first [OF assms(1)] by blast
qed

theorem sample_clamps_witness:
  "0 < resolution P2 \<and> length (grey2 200) = resolution P2 * resolution P2 * 4
   \<and> (\<exists>v. sample P2 (grey2 200) (- 5) (15 / 2) = Some v \<and> 0 \<le> v \<and> v \<le> 1)
   \<and> px (resolution P2) (- 5) = 0 \<and> px (resolution P2) (15 / 2) = 1
   \<and> reads P2 (- 5) (15 / 2) = [8, 9, 10]"
proof -
  have h1: "0 < resolution P2"
    by (simp add: P2_def defaults_def)
  have h2: "length (grey2 200) = resolution P2 * resolution P2 * 4"
    by (simp add: P2_def defaults_def grey2_def)
  have p1: "px (resolution P2) (- 5) = 0"
    by (simp add: P2_def defaults_def px_def clamp_def)
  have p2: "px (resolution P2) (15 / 2) = 1"
    by (simp add: P2_def defaults_def px_def clamp_def)
  have r: "reads P2 (- 5) (15 / 2) = [8, 9, 10]"
    unfolding reads_def Let_def p1 p2 by (simp add: P2_def defaults_def)
  show ?thesis
    using sample_clamps [OF h1 h2, of "- 5" "15 / 2"] h1 h2 p1 p2 r by blast
qed

lemma tone_spec:
  assumes "0 \<le> luminance r g b" and "luminance r g b \<le> 1"
  shows "tone iv gam r g b = Some (sampleLuminance_spec iv gam r g b)"
proof -
  define l where "l = (if iv then 1 - luminance r g b else luminance r g b)"
  have l0: "0 \<le> l"
    using assms by (simp add: l_def)
  have t: "tone iv gam r g b = clamp01 (Math_pow l gam)"
    by (simp add: tone_def l_def)
  have s: "sampleLuminance_spec iv gam r g b
           = (if l = 0 \<and> gam \<le> 0 then 1 else max 0 (min 1 (l powr gam)))"
    by (simp add: sampleLuminance_spec_def luminance_def l_def Let_def)
  show ?thesis
    unfolding t s using l0
    by (auto simp: Math_pow_def clamp01_def clamp_def)
qed

text \<open>
  C4. On the buffer that \<open>getImageData\<close> delivers, \<open>sample\<close> gives what the contract of
  the specification gives on the red, green and blue bytes of the pixel it reads: the
  weighted sum \<open>0.2126 R + 0.7152 G + 0.0722 B\<close> divided by 255, then \<open>1 - luminance\<close>
  when \<open>invert\<close> is set, then the power \<open>gamma\<close>, then the clamp to the unit interval.
\<close>

theorem sample_order:
  assumes "0 < resolution P" and "length data = resolution P * resolution P * 4"
    and "idx = (px (resolution P) y * int (resolution P) + px (resolution P) x) * 4"
  shows "sample P data x y =
           Some (sampleLuminance_spec (invert P) (gamma P)
                   (real (unat (data ! nat idx))) (real (unat (data ! nat (idx + 1))))
                   (real (unat (data ! nat (idx + 2)))))"
proof -
  let ?r = "real (unat (data ! nat idx))"
  let ?g = "real (unat (data ! nat (idx + 1)))"
  let ?b = "real (unat (data ! nat (idx + 2)))"
  have lo: "0 \<le> luminance ?r ?g ?b"
    by (rule luminance_unit(1)) (rule of_nat_0_le_iff byte_le)+
  have hi: "luminance ?r ?g ?b \<le> 1"
    by (rule luminance_unit(2)) (rule of_nat_0_le_iff byte_le)+
  have "sample P data x y = tone (invert P) (gamma P) ?r ?g ?b"
    unfolding assms(3) by (rule sample_in_range [OF assms(1,2)])
  then show ?thesis
    by (simp only: tone_spec [OF lo hi])
qed

text \<open>
  At \<open>gamma = 2\<close> with \<open>invert\<close> on, a grey of 51 gives \<open>(1 - 1/5)\<^sup>2\<close>: the inversion comes
  before the power; the other order would give \<open>1 - (1/5)\<^sup>2\<close>.
\<close>

theorem sample_order_witness:
  "0 < resolution (P2 \<lparr> gamma := 2, invert := True \<rparr>)
   \<and> length (grey2 51)
       = resolution (P2 \<lparr> gamma := 2, invert := True \<rparr>)
         * resolution (P2 \<lparr> gamma := 2, invert := True \<rparr>) * 4
   \<and> (12::int) = (px (resolution (P2 \<lparr> gamma := 2, invert := True \<rparr>)) 1
                    * int (resolution (P2 \<lparr> gamma := 2, invert := True \<rparr>))
                  + px (resolution (P2 \<lparr> gamma := 2, invert := True \<rparr>)) 1) * 4
   \<and> sample (P2 \<lparr> gamma := 2, invert := True \<rparr>) (grey2 51) 1 1 = Some (16 / 25)
   \<and> sample (P2 \<lparr> gamma := 2, invert := True \<rparr>) (grey2 51) 1 1 \<noteq> Some (24 / 25)"
proof -
  let ?P = "P2 \<lparr> gamma := 2, invert := True \<rparr>"
  have h1: "0 < resolution ?P"
    by (simp add: P2_def defaults_def)
  have h2: "length (grey2 51) = resolution ?P * resolution ?P * 4"
    by (simp add: P2_def defaults_def grey2_def)
  have h3: "(12::int) = (px (resolution ?P) 1 * int (resolution ?P) + px (resolution ?P) 1) * 4"
    by (simp add: P2_def defaults_def px_def clamp_def)
  have "sampleLuminance_spec (invert ?P) (gamma ?P) (real (unat (grey2 51 ! nat 12)))
          (real (unat (grey2 51 ! nat (12 + 1)))) (real (unat (grey2 51 ! nat (12 + 2))))
        = 16 / 25"
    by (simp add: grey2_def sampleLuminance_spec_def power2_eq_square)
  then have "sample ?P (grey2 51) 1 1 = Some (16 / 25)"
    using sample_order [OF h1 h2 h3] by simp
  then show ?thesis
    using h1 h2 h3 by simp
qed

lemma fl_eval:
  assumes "2 ^ k \<le> \<bar>x\<bar>" and "\<bar>x\<bar> < 2 ^ (k + 1)" and "k \<le> 52"
  shows "fl x = of_int (rne (x * 2 ^ (52 - k))) / 2 ^ (52 - k)"
proof -
  have pos: "0 < \<bar>x\<bar>"
    using assms(1) by (smt (verit) zero_less_power)
  then have nz: "x \<noteq> 0"
    by simp
  have "2 powr real_of_int (int k) \<le> \<bar>x\<bar> \<and> \<bar>x\<bar> < 2 powr real_of_int (int k + 1)"
    using assms(1,2) by (simp add: powr_realpow powr_add)
  then have lg: "\<lfloor>log 2 \<bar>x\<bar>\<rfloor> = int k"
    using pos by (subst floor_log_eq_powr_iff) simp_all
  have e: "\<lfloor>log 2 \<bar>x\<bar>\<rfloor> - 52 = - int (52 - k)"
    using assms(3) by (simp add: lg)
  have p: "2 powr real_of_int (- int (52 - k)) = 1 / 2 ^ (52 - k)"
    by (simp add: powr_minus_divide powr_realpow)
  show ?thesis
    unfolding fl_def Let_def e p using nz by simp
qed

lemma w19_val: "w19 = 8556839292003942 / 2 ^ 52"
  unfolding w19_def
  by (subst fl_eval [of 0]) (simp_all add: rne_def)

lemma w63_val: "w63 = 7093169413108531 / 2 ^ 50"
  unfolding w63_def
  by (subst fl_eval [of 2]) (simp_all add: rne_def)

lemma diff_val: "fl (w63 - w19) = 4953959590107546 / 2 ^ 50"
  unfolding w19_val w63_val
  by (subst fl_eval [of 2]) (simp_all add: rne_def)

lemma prod_val: "fl (4953959590107546 / 2 ^ 50 * 1) = 4953959590107546 / 2 ^ 50"
  by (subst fl_eval [of 2]) (simp_all add: rne_def)

lemma sum_val: "fl (w19 + 4953959590107546 / 2 ^ 50) = 7093169413108532 / 2 ^ 50"
  unfolding w19_val
  by (subst fl_eval [of 2]) (simp_all add: rne_def)

lemma rne_cases: "rne x = \<lfloor>x\<rfloor> \<or> rne x = \<lfloor>x\<rfloor> + 1"
  by (simp add: rne_def Let_def)

lemma rne_of_int: "rne (of_int n) = n"
  by (simp add: rne_def)

lemma rne_mono:
  assumes "x \<le> y"
  shows "rne x \<le> rne y"
proof (cases "\<lfloor>x\<rfloor> = \<lfloor>y\<rfloor>")
  case True
  have "x - of_int \<lfloor>x\<rfloor> \<le> y - of_int \<lfloor>x\<rfloor>"
    using assms by simp
  then show ?thesis
    unfolding rne_def Let_def True [symmetric] by auto
next
  case False
  then have "\<lfloor>x\<rfloor> < \<lfloor>y\<rfloor>"
    using floor_mono [OF assms] by simp
  then have "rne x \<le> \<lfloor>y\<rfloor>"
    using rne_cases [of x] by auto
  moreover have "\<lfloor>y\<rfloor> \<le> rne y"
    using rne_cases [of y] by auto
  ultimately show ?thesis
    by simp
qed

lemma rne_ge: "of_int n \<le> x \<Longrightarrow> n \<le> rne x"
  using rne_mono [of "of_int n" x] by (simp add: rne_of_int)

lemma rne_le: "x \<le> of_int n \<Longrightarrow> rne x \<le> n"
  using rne_mono [of x "of_int n"] by (simp add: rne_of_int)

lemma fl_pos:
  assumes "0 < x"
  shows "fl x = real_of_int (rne (x / 2 powr real_of_int (\<lfloor>log 2 x\<rfloor> - 52))) * 2 powr real_of_int (\<lfloor>log 2 x\<rfloor> - 52)"
  using assms by (simp add: fl_def Let_def)

lemma scaled_range:
  assumes "0 < x" and "e = \<lfloor>log 2 x\<rfloor> - 52"
  shows "2 ^ 52 \<le> x / 2 powr real_of_int e" and "x / 2 powr real_of_int e < 2 ^ 53"
proof -
  let ?k = "\<lfloor>log 2 x\<rfloor>"
  have b: "2 powr real_of_int ?k \<le> x \<and> x < 2 powr (real_of_int ?k + 1)"
    using floor_log_eq_powr_iff [of x 2 ?k] assms(1) by simp
  have p: "2 powr real_of_int ?k = 2 powr real_of_int e * 2 ^ 52"
  proof -
    have "real_of_int ?k = real_of_int e + 52"
      by (simp add: assms(2))
    then have "(2::real) powr real_of_int ?k = 2 powr real_of_int e * 2 powr 52"
      by (simp add: powr_add)
    then show ?thesis
      by simp
  qed
  have q: "2 powr (real_of_int ?k + 1) = 2 powr real_of_int e * 2 ^ 53"
    unfolding powr_add p by simp
  have pe: "0 < (2::real) powr real_of_int e"
    by simp
  show "2 ^ 52 \<le> x / 2 powr real_of_int e"
    using b p pe by (simp add: pos_le_divide_eq mult.commute)
  show "x / 2 powr real_of_int e < 2 ^ 53"
    using b q pe by (simp add: pos_divide_less_eq mult.commute)
qed

lemma fl_range:
  assumes "0 < x" and "e = \<lfloor>log 2 x\<rfloor> - 52"
  shows "2 powr real_of_int e * 2 ^ 52 \<le> fl x" and "fl x \<le> 2 powr real_of_int e * 2 ^ 53"
proof -
  let ?m = "rne (x / 2 powr real_of_int e)"
  have f: "fl x = real_of_int ?m * 2 powr real_of_int e"
    unfolding assms(2) by (rule fl_pos [OF assms(1)])
  have "(2 ^ 52 :: int) \<le> ?m"
    by (rule rne_ge) (use scaled_range(1) [OF assms] in simp)
  then have lo: "(2 ^ 52 :: real) \<le> real_of_int ?m"
    by (metis of_int_le_iff of_int_numeral of_int_power)
  have "?m \<le> (2 ^ 53 :: int)"
    by (rule rne_le) (use scaled_range(2) [OF assms] in simp)
  then have hi: "real_of_int ?m \<le> (2 ^ 53 :: real)"
    by (metis of_int_le_iff of_int_numeral of_int_power)
  have pe: "0 \<le> (2::real) powr real_of_int e"
    by simp
  show "2 powr real_of_int e * 2 ^ 52 \<le> fl x"
    unfolding f using mult_right_mono [OF lo pe] by (simp add: mult.commute)
  show "fl x \<le> 2 powr real_of_int e * 2 ^ 53"
    unfolding f using mult_right_mono [OF hi pe] by (simp add: mult.commute)
qed

lemma fl_nonneg: "0 \<le> x \<Longrightarrow> 0 \<le> fl x"
proof (cases "x = 0")
  case True
  then show ?thesis by (simp add: fl_def)
next
  case False
  assume "0 \<le> x"
  with False have pos: "0 < x" by simp
  have "0 \<le> 2 powr real_of_int (\<lfloor>log 2 x\<rfloor> - 52) * (2 ^ 52 :: real)"
    by simp
  then show ?thesis
    using fl_range(1) [OF pos refl] by linarith
qed

lemma fl_mono_pos:
  assumes "0 < x" and "x \<le> y"
  shows "fl x \<le> fl y"
proof -
  have ypos: "0 < y"
    using assms by simp
  define ex where "ex = \<lfloor>log 2 x\<rfloor> - 52"
  define ey where "ey = \<lfloor>log 2 y\<rfloor> - 52"
  have fx: "fl x = real_of_int (rne (x / 2 powr real_of_int ex)) * 2 powr real_of_int ex"
    unfolding ex_def by (rule fl_pos [OF assms(1)])
  have fy: "fl y = real_of_int (rne (y / 2 powr real_of_int ey)) * 2 powr real_of_int ey"
    unfolding ey_def by (rule fl_pos [OF ypos])
  have "log 2 x \<le> log 2 y"
    using assms by simp
  then have le: "ex \<le> ey"
    by (simp add: ex_def ey_def floor_mono)
  show ?thesis
  proof (cases "ex = ey")
    case True
    have pe: "0 < (2::real) powr real_of_int ex"
      by simp
    have "x / 2 powr real_of_int ex \<le> y / 2 powr real_of_int ex"
      using assms(2) pe by (simp add: divide_right_mono)
    then have "rne (x / 2 powr real_of_int ex) \<le> rne (y / 2 powr real_of_int ex)"
      by (rule rne_mono)
    then have "real_of_int (rne (x / 2 powr real_of_int ex))
               \<le> real_of_int (rne (y / 2 powr real_of_int ex))"
      by simp
    then have "real_of_int (rne (x / 2 powr real_of_int ex)) * 2 powr real_of_int ex
               \<le> real_of_int (rne (y / 2 powr real_of_int ex)) * 2 powr real_of_int ex"
      using pe by (intro mult_right_mono) simp_all
    then show ?thesis
      unfolding fx fy True [symmetric] .
  next
    case False
    then have "ex + 1 \<le> ey"
      using le by simp
    then have "real_of_int ex + 1 \<le> real_of_int ey"
      by linarith
    then have "(2::real) powr (real_of_int ex + 1) \<le> 2 powr real_of_int ey"
      by (simp only: powr_le_cancel_iff [of 2] one_less_numeral_iff num.simps semiring_norm)
    moreover have "(2::real) powr (real_of_int ex + 1) = 2 powr real_of_int ex * 2"
      by (simp only: powr_add powr_one_gt_zero_iff [THEN iffD2] zero_less_numeral)
    ultimately have a: "2 powr real_of_int ex * 2 \<le> (2::real) powr real_of_int ey"
      by simp
    have "2 powr real_of_int ex * 2 * 2 ^ 52 \<le> (2::real) powr real_of_int ey * 2 ^ 52"
      using a by (intro mult_right_mono) simp_all
    then have "2 powr real_of_int ex * 2 ^ 53 \<le> (2::real) powr real_of_int ey * 2 ^ 52"
      by simp
    then show ?thesis
      using fl_range(2) [OF assms(1) ex_def] fl_range(1) [OF ypos ey_def] by linarith
  qed
qed

lemma fl_mono_nonneg:
  assumes "0 \<le> x" and "x \<le> y"
  shows "fl x \<le> fl y"
proof (cases "x = 0")
  case True
  then show ?thesis
    using fl_nonneg [of y] assms by (simp add: fl_def)
next
  case False
  then show ?thesis
    using assms by (intro fl_mono_pos) simp_all
qed

lemma lerp_fl_mono:
  assumes "0 \<le> a" and "a \<le> b" and "0 \<le> s" and "s \<le> t"
  shows "lerp_fl a b s \<le> lerp_fl a b t"
proof -
  have d: "0 \<le> fl (b - a)"
    using assms(2) by (intro fl_nonneg) simp
  have p0: "0 \<le> fl (b - a) * s"
    using d assms(3) by simp
  have "fl (b - a) * s \<le> fl (b - a) * t"
    using d assms(4) by (rule mult_left_mono [rotated])
  then have q: "fl (fl (b - a) * s) \<le> fl (fl (b - a) * t)"
    using p0 by (intro fl_mono_nonneg)
  have "0 \<le> fl (fl (b - a) * s)"
    using p0 by (rule fl_nonneg)
  then have "0 \<le> a + fl (fl (b - a) * s)"
    using assms(1) by simp
  then show ?thesis
    unfolding lerp_fl_def using q by (intro fl_mono_nonneg) simp_all
qed

lemma w19_double: "fl w19 = w19"
  unfolding w19_val
  by (subst fl_eval [of 0]) (simp_all add: rne_def)

lemma lerp_fl_zero: "fl a = a \<Longrightarrow> lerp_fl a b 0 = a"
  by (simp add: lerp_fl_def fl_def)

text \<open>
  C6, as the code has it. The stroke width of a sample is
  \<open>lerp(minWidth, maxWidth, shade)\<close> with \<open>shade = 1 - luminance\<close>. In exact arithmetic and
  for \<open>minWidth \<le> maxWidth\<close> it grows with the shade, strictly when
  \<open>minWidth < maxWidth\<close>, it is \<open>minWidth\<close> at shade 0 and \<open>maxWidth\<close> at shade 1. In
  doubles it is still exactly \<open>minWidth\<close> at shade 0, and for \<open>0 \<le> minWidth\<close> it does not
  fall when the shade grows from 0 upwards.
\<close>

theorem strokeWidth_monotone:
  assumes "minWidth P \<le> maxWidth P"
  shows "strokeWidth P lum = lerp (minWidth P) (maxWidth P) (1 - lum)
         \<and> (s \<le> t \<longrightarrow> lerp (minWidth P) (maxWidth P) s \<le> lerp (minWidth P) (maxWidth P) t)
         \<and> (minWidth P < maxWidth P \<and> s < t
              \<longrightarrow> lerp (minWidth P) (maxWidth P) s < lerp (minWidth P) (maxWidth P) t)
         \<and> lerp (minWidth P) (maxWidth P) 0 = minWidth P
         \<and> lerp (minWidth P) (maxWidth P) 1 = maxWidth P
         \<and> (fl (minWidth P) = minWidth P
              \<longrightarrow> lerp_fl (minWidth P) (maxWidth P) 0 = minWidth P)
         \<and> (0 \<le> minWidth P \<and> 0 \<le> s \<and> s \<le> t
              \<longrightarrow> lerp_fl (minWidth P) (maxWidth P) s \<le> lerp_fl (minWidth P) (maxWidth P) t)"
proof -
  have d: "0 \<le> maxWidth P - minWidth P"
    using assms by simp
  have mono: "s \<le> t \<longrightarrow> lerp (minWidth P) (maxWidth P) s \<le> lerp (minWidth P) (maxWidth P) t"
    using d by (simp add: lerp_def mult_left_mono)
  have strict: "minWidth P < maxWidth P \<and> s < t
      \<longrightarrow> lerp (minWidth P) (maxWidth P) s < lerp (minWidth P) (maxWidth P) t"
    by (simp add: lerp_def)
  have fmono: "0 \<le> minWidth P \<and> 0 \<le> s \<and> s \<le> t
      \<longrightarrow> lerp_fl (minWidth P) (maxWidth P) s \<le> lerp_fl (minWidth P) (maxWidth P) t"
    using assms by (simp add: lerp_fl_mono)
  show ?thesis
    using mono strict fmono lerp_fl_zero by (simp add: strokeWidth_def lerp_def)
qed

theorem strokeWidth_monotone_witness:
  "minWidth Pfl \<le> maxWidth Pfl
   \<and> minWidth Pfl < maxWidth Pfl \<and> (1 / 4 :: real) < 1 / 2
   \<and> fl (minWidth Pfl) = minWidth Pfl \<and> 0 \<le> minWidth Pfl \<and> (0 :: real) \<le> 1 / 4
   \<and> (1 / 4 :: real) \<le> 1 / 2
   \<and> strokeWidth Pfl (3 / 4) = lerp (minWidth Pfl) (maxWidth Pfl) (1 - 3 / 4)
   \<and> lerp (minWidth Pfl) (maxWidth Pfl) (1 / 4) \<le> lerp (minWidth Pfl) (maxWidth Pfl) (1 / 2)
   \<and> lerp (minWidth Pfl) (maxWidth Pfl) (1 / 4) < lerp (minWidth Pfl) (maxWidth Pfl) (1 / 2)
   \<and> lerp (minWidth Pfl) (maxWidth Pfl) 0 = minWidth Pfl
   \<and> lerp (minWidth Pfl) (maxWidth Pfl) 1 = maxWidth Pfl
   \<and> lerp_fl (minWidth Pfl) (maxWidth Pfl) 0 = minWidth Pfl
   \<and> lerp_fl (minWidth Pfl) (maxWidth Pfl) (1 / 4) \<le> lerp_fl (minWidth Pfl) (maxWidth Pfl) (1 / 2)"
proof -
  have f: "minWidth Pfl = w19" "maxWidth Pfl = w63"
    by (simp_all add: Pfl_def)
  have h': "minWidth Pfl < maxWidth Pfl"
    unfolding f w19_val w63_val by simp
  then have h: "minWidth Pfl \<le> maxWidth Pfl"
    by simp
  have o: "(1 / 4 :: real) < 1 / 2" "(1 / 4 :: real) \<le> 1 / 2"
    by simp_all
  have dbl: "fl (minWidth Pfl) = minWidth Pfl"
    unfolding f by (rule w19_double)
  have nn: "0 \<le> minWidth Pfl" "(0 :: real) \<le> 1 / 4"
    unfolding f w19_val by simp_all
  show ?thesis
    using strokeWidth_monotone [OF h, of "3 / 4" "1 / 4" "1 / 2"] h h' o dbl nn by blast
qed

text \<open>
  C6 as stated fails in doubles: with \<open>minWidth = 1.9\<close> and \<open>maxWidth = 6.3\<close>, the sum
  \<open>a + (b - a) * 1\<close> is rounded to the double above \<open>6.3\<close>.
\<close>

theorem lerp_fl_counterexample:
  "lerp_fl w19 w63 1 = 7093169413108532 / 2 ^ 50 \<and> w63 = 7093169413108531 / 2 ^ 50
   \<and> lerp_fl w19 w63 1 \<noteq> w63"
proof -
  have "lerp_fl w19 w63 1 = 7093169413108532 / 2 ^ 50"
    unfolding lerp_fl_def diff_val prod_val sum_val by (rule refl)
  then show ?thesis
    by (simp add: w63_val)
qed



lemma clamp_mono: "a \<le> b \<Longrightarrow> clamp a mn mx \<le> clamp b mn mx"
  unfolding clamp_def by (intro max.mono min.mono order_refl)

lemma sample_gamma_one:
  assumes "0 < resolution P" and "length data = resolution P * resolution P * 4"
    and "gamma P = 1"
    and "idx = (px (resolution P) y * int (resolution P) + px (resolution P) x) * 4"
  shows "sample P data x y =
           Some (clamp (if invert P then 1 - brightness data idx / 255
                        else brightness data idx / 255) 0 1)"
  unfolding sample_in_range [OF assms(1,2)] assms(4)
  by (simp add: tone_def luminance_def brightness_def assms(3)
      Math_pow_one clamp01_def)

text \<open>
  C7. With \<open>gamma = 1\<close>, of two buffers read at the same place the one whose pixel has
  the larger weighted sum of red, green and blue gives the larger value of \<open>sample\<close> when
  \<open>invert\<close> is off, and the smaller one when \<open>invert\<close> is on (both not strictly).
\<close>

theorem sample_monotone:
  assumes "0 < resolution P"
    and "length d1 = resolution P * resolution P * 4"
    and "length d2 = resolution P * resolution P * 4"
    and "gamma P = 1"
    and "idx = (px (resolution P) y * int (resolution P) + px (resolution P) x) * 4"
    and "brightness d1 idx \<le> brightness d2 idx"
  shows "\<exists>v1 v2. sample P d1 x y = Some v1 \<and> sample P d2 x y = Some v2
           \<and> (if invert P then v2 \<le> v1 else v1 \<le> v2)"
proof -
  have le: "brightness d1 idx / 255 \<le> brightness d2 idx / 255"
    using assms(6) by simp
  then have le': "1 - brightness d2 idx / 255 \<le> 1 - brightness d1 idx / 255"
    by simp
  show ?thesis
    unfolding sample_gamma_one [OF assms(1,2,4,5)] sample_gamma_one [OF assms(1,3,4,5)]
    using clamp_mono [OF le] clamp_mono [OF le'] by simp
qed

theorem sample_monotone_witness:
  "0 < resolution P2 \<and> length (grey2 51) = resolution P2 * resolution P2 * 4
   \<and> length (grey2 102) = resolution P2 * resolution P2 * 4 \<and> gamma P2 = 1
   \<and> (0::int) = (px (resolution P2) 0 * int (resolution P2) + px (resolution P2) 0) * 4
   \<and> brightness (grey2 51) 0 \<le> brightness (grey2 102) 0
   \<and> (\<exists>v1 v2. sample P2 (grey2 51) 0 0 = Some v1 \<and> sample P2 (grey2 102) 0 0 = Some v2
         \<and> v1 \<le> v2)"
proof -
  have h1: "0 < resolution P2"
    by (simp add: P2_def defaults_def)
  have h2: "length (grey2 51) = resolution P2 * resolution P2 * 4"
    and h3: "length (grey2 102) = resolution P2 * resolution P2 * 4"
    by (simp_all add: P2_def defaults_def grey2_def)
  have h4: "gamma P2 = 1"
    by (simp add: P2_def)
  have h5: "(0::int) = (px (resolution P2) 0 * int (resolution P2) + px (resolution P2) 0) * 4"
    by (simp add: P2_def defaults_def px_def clamp_def)
  have h6: "brightness (grey2 51) 0 \<le> brightness (grey2 102) 0"
    by (simp add: brightness_def grey2_def)
  have ni: "\<not> invert P2"
    by (simp add: P2_def defaults_def)
  show ?thesis
    using sample_monotone [OF h1 h2 h3 h4 h5 h6] h1 h2 h3 h4 h5 h6 ni by simp
qed

lemma rd_alpha:
  assumes "length d' = length d" and "\<forall>i<length d. i mod 4 \<noteq> 3 \<longrightarrow> d' ! i = d ! i"
    and "0 \<le> k" and "0 \<le> j" and "j < 3"
  shows "rd d' (k * 4 + j) = rd d (k * 4 + j)"
proof (cases "k * 4 + j < int (length d)")
  case True
  have nn: "0 \<le> k * 4 + j"
    using assms(3,4) by simp
  have "(k * 4 + j) mod 4 = j"
    using assms(4,5) by simp
  then have "int (nat (k * 4 + j) mod 4) = j"
    using nn by (simp add: zmod_int)
  then have "nat (k * 4 + j) mod 4 \<noteq> 3"
    using assms(5) by auto
  moreover have "nat (k * 4 + j) < length d"
    using True nn by simp
  ultimately have "d' ! nat (k * 4 + j) = d ! nat (k * 4 + j)"
    using assms(2) by blast
  then show ?thesis
    by (simp add: rd_def assms(1))
next
  case False
  then show ?thesis
    by (simp add: rd_def assms(1))
qed

lemma sample_alpha:
  assumes "length d' = length d" and "\<forall>i<length d. i mod 4 \<noteq> 3 \<longrightarrow> d' ! i = d ! i"
  shows "sample P d' x y = sample P d x y"
proof -
  let ?k = "px (resolution P) y * int (resolution P) + px (resolution P) x"
  have k: "0 \<le> ?k"
    by (simp add: px_nonneg)
  have e: "rd d' (?k * 4 + 0) = rd d (?k * 4 + 0)" "rd d' (?k * 4 + 1) = rd d (?k * 4 + 1)"
    "rd d' (?k * 4 + 2) = rd d (?k * 4 + 2)"
    by (rule rd_alpha [OF assms k]; simp)+
  show ?thesis
    unfolding sample_def Let_def e by (rule refl)
qed

lemma sample_cleared:
  assumes "0 < resolution P" and "0 < gamma P"
  shows "sample P (replicate (resolution P * resolution P * 4) 0) x y
         = Some (if invert P then 1 else 0)"
proof -
  let ?n = "resolution P * resolution P * 4"
  let ?idx = "(px (resolution P) y * int (resolution P) + px (resolution P) x) * 4"
  note ir = index_range [OF assms(1), of y x]
  have len: "length (replicate ?n (0::byte)) = ?n"
    by simp
  have nth: "replicate ?n (0::byte) ! nat i = 0" if "0 \<le> i" "i < int ?n" for i
    using that by (intro nth_replicate) (simp only: nat_less_iff)
  have z: "replicate ?n (0::byte) ! nat ?idx = 0" "replicate ?n (0::byte) ! nat (?idx + 1) = 0"
    "replicate ?n (0::byte) ! nat (?idx + 2) = 0"
    using ir by (intro nth; linarith)+
  show ?thesis
    unfolding sample_in_range [OF assms(1) len] z
    using assms(2)
    by (simp add: tone_def luminance_def Math_pow_def clamp01_def clamp_def)
qed

text \<open>
  C10. Two buffers that differ in alpha bytes only (the bytes at the indices 3, 7, 11,
  ...) give the same value of \<open>sample\<close> at every place. A pixel whose bytes are all zero,
  as \<open>clearRect\<close> leaves them, has luminance 0 before the inversion: for a positive
  \<open>gamma\<close>, \<open>sample\<close> returns 0 there with \<open>invert\<close> off and 1 with \<open>invert\<close> on.
\<close>

theorem sample_ignores_alpha:
  assumes "length d' = length d" and "\<forall>i<length d. i mod 4 \<noteq> 3 \<longrightarrow> d' ! i = d ! i"
  shows "sample P d' x y = sample P d x y
         \<and> luminance 0 0 0 = 0
         \<and> (0 < resolution P \<and> 0 < gamma P
              \<longrightarrow> sample P (replicate (resolution P * resolution P * 4) 0) x y
                    = Some (if invert P then 1 else 0))"
  using sample_alpha [OF assms] sample_cleared by (simp add: luminance_def)

theorem sample_ignores_alpha_witness:
  "length clear1 = length opaque1
   \<and> clear1 ! 0 = opaque1 ! 0 \<and> clear1 ! 1 = opaque1 ! 1 \<and> clear1 ! 2 = opaque1 ! 2
   \<and> clear1 ! 3 \<noteq> opaque1 ! 3
   \<and> sample P1 clear1 0 0 = sample P1 opaque1 0 0
   \<and> 0 < resolution P1 \<and> 0 < gamma P1
   \<and> sample P1 (replicate (resolution P1 * resolution P1 * 4) 0) 0 0 = Some 0"
proof -
  have h1: "length clear1 = length opaque1"
    by (simp add: clear1_def opaque1_def)
  have h2: "\<forall>i<length opaque1. i mod 4 \<noteq> 3 \<longrightarrow> clear1 ! i = opaque1 ! i"
  proof (intro allI impI)
    fix i :: nat
    assume "i < length opaque1" and "i mod 4 \<noteq> 3"
    then have "i = 0 \<or> i = 1 \<or> i = 2"
      by (simp add: opaque1_def) presburger
    then show "clear1 ! i = opaque1 ! i"
      by (auto simp: clear1_def opaque1_def)
  qed
  have h3: "0 < resolution P1 \<and> 0 < gamma P1" and ni: "\<not> invert P1"
    by (simp_all add: P1_def defaults_def)
  have e: "clear1 ! 0 = opaque1 ! 0 \<and> clear1 ! 1 = opaque1 ! 1 \<and> clear1 ! 2 = opaque1 ! 2
      \<and> clear1 ! 3 \<noteq> opaque1 ! 3"
    by (simp add: clear1_def opaque1_def)
  show ?thesis
    using sample_ignores_alpha [OF h1 h2, of P1 0 0] h1 e h3 ni by simp
qed

section \<open>Properties of the spiral\<close>






text \<open>
  Whatever an earlier render left on the visible canvas and on the hidden one, the same
  image and controls give the same painted result.
\<close>

lemma render_ignores_earlier_state:
  "renderSpiral dI (Some img) P (c0, h0) = renderSpiral dI (Some img) P (c0', h0')"
  by (simp only: renderSpiral_def resize_def prepare_def option.case prod.case)

lemma walk_turns0:
  assumes "turns P = 0"
  shows "walk P data c = Some c"
proof (cases "js_div (maxR P) (b_of P)")
  case (Num r)
  have "\<not> 0 < min r 0"
    by simp
  then have "spiral P data (min r 0) 0 True c = c"
    by (subst spiral.simps) simp
  then show ?thesis
    by (simp add: walk_def maxTheta_def Num Math_min_def assms)
next
  case PosInf
  have "spiral P data 0 0 True c = c"
    by (subst spiral.simps) simp
  then show ?thesis
    by (simp add: walk_def maxTheta_def PosInf Math_min_def assms)
next
  case NegInf
  then show ?thesis
    by (simp add: walk_def maxTheta_def Math_min_def)
next
  case NaN
  then show ?thesis
    by (simp add: walk_def maxTheta_def Math_min_def)
qed

text \<open>The loop always ends: \<open>maxTheta\<close> is never plus infinity.\<close>

lemma walk_returns: "\<exists>c'. walk P data c = Some c'"
  by (cases "js_div (maxR P) (b_of P)") (simp_all add: walk_def maxTheta_def Math_min_def)

lemma walk_not_None: "walk P data c \<noteq> None"
  using walk_returns [of P data c] by auto

lemma render_returns: "renderSpiral dI img P s \<noteq> Inl Unending"
proof (cases img)
  case None
  then show ?thesis
    by (simp add: renderSpiral_def)
next
  case (Some im)
  obtain c0 h0 where s: "s = (c0, h0)"
    by (cases s)
  show ?thesis
    unfolding Some s renderSpiral_def Let_def option.case prod.case
    by (auto simp: walk_not_None split: if_splits option.splits)
qed

lemma render_turns0:
  assumes "turns P = 0" and "0 < resolution P"
    and "cropToCircle P \<longrightarrow> maxWidth P \<le> real (resolution P) / 2"
  shows "\<exists>c h. renderSpiral dI (Some img) P s = Inr (c, h) \<and> path c = []
           \<and> painted c =
               [FillRect ''#fff'' 0 0 (real (resolution P)) (real (resolution P)) [],
                Stroke [] 1 ''round'' ''round'' ''#000''
                  (if cropToCircle P
                   then [[Arc (real (resolution P) / 2) (real (resolution P) / 2)
                            (real (resolution P) / 2 - maxWidth P) 0 (pi * 2)]]
                   else [])]"
proof (cases "cropToCircle P")
  case True
  then have r: "\<not> real (resolution P) / 2 - maxWidth P < 0"
    using assms(3) by simp
  show ?thesis
    using assms(2) True r
    by (cases s)
      (simp add: renderSpiral_def Let_def walk_turns0 [OF assms(1)] resize_def save_def
        restore_def fillRect_def beginPath_def arc_def clip_def translate_def stroke_def
        gstate0_def)
next
  case False
  show ?thesis
    using assms(2) False
    by (cases s)
      (simp add: renderSpiral_def Let_def walk_turns0 [OF assms(1)] resize_def save_def
        restore_def fillRect_def beginPath_def translate_def stroke_def gstate0_def)
qed

text \<open>
  C8, as the code has it. With \<open>turns = 0\<close>, a positive resolution and a clip radius that
  is not negative, the loop body never runs: the render returns without an error, the path
  is empty (it holds no starting point and no segment), and nothing is painted but the
  white background and the stroke of the empty path.
\<close>

theorem turns0_empty_path:
  assumes "turns P = 0" and "0 < resolution P"
    and "cropToCircle P \<longrightarrow> maxWidth P \<le> real (resolution P) / 2"
  shows "\<exists>c h. renderSpiral dI (Some img) P s = Inr (c, h) \<and> path c = []
           \<and> painted c =
               [FillRect ''#fff'' 0 0 (real (resolution P)) (real (resolution P)) [],
                Stroke [] 1 ''round'' ''round'' ''#000''
                  (if cropToCircle P
                   then [[Arc (real (resolution P) / 2) (real (resolution P) / 2)
                            (real (resolution P) / 2 - maxWidth P) 0 (pi * 2)]]
                   else [])]"
  by (rule render_turns0 [OF assms])

theorem turns0_empty_path_witness:
  "turns P0 = 0 \<and> 0 < resolution P0
   \<and> cropToCircle P0 \<and> maxWidth P0 \<le> real (resolution P0) / 2
   \<and> (\<exists>c h. renderSpiral nearest (Some black1) P0 (canvas0, cleared) = Inr (c, h)
         \<and> path c = []
         \<and> painted c =
             [FillRect ''#fff'' 0 0 2048 2048 [],
              Stroke [] 1 ''round'' ''round'' ''#000''
                [[Arc 1024 1024 (1024 - 21 / 5) 0 (pi * 2)]]])"
proof -
  have h1: "turns P0 = 0" and h2: "0 < resolution P0"
    and h3: "cropToCircle P0 \<longrightarrow> maxWidth P0 \<le> real (resolution P0) / 2"
    by (simp_all add: P0_def defaults_def)
  have v: "cropToCircle P0" "real (resolution P0) = 2048" "maxWidth P0 = 21 / 5"
    "maxWidth P0 \<le> real (resolution P0) / 2"
    by (simp_all add: P0_def defaults_def)
  show ?thesis
    using turns0_empty_path [OF h1 h2 h3, of nearest black1 "(canvas0, cleared)"] h1 h2 v
    by simp
qed

text \<open>
  C8 as stated fails: at the default controls with \<open>turns = 0\<close> the path left by the
  render is empty; it does not hold the starting point at the centre of the canvas.
\<close>

theorem turns0_path_counterexample:
  "result_path (renderSpiral nearest (Some black1) P0 (canvas0, cleared)) = Some []
   \<and> result_path (renderSpiral nearest (Some black1) P0 (canvas0, cleared))
       \<noteq> Some [MoveTo 1024 1024]"
proof -
  have h1: "turns P0 = 0" and h2: "0 < resolution P0"
    and h3: "cropToCircle P0 \<longrightarrow> maxWidth P0 \<le> real (resolution P0) / 2"
    by (simp_all add: P0_def defaults_def)
  obtain c h where "renderSpiral nearest (Some black1) P0 (canvas0, cleared) = Inr (c, h)"
    and "path c = []"
    using render_turns0 [OF h1 h2 h3, of nearest black1 "(canvas0, cleared)"] by blast
  then show ?thesis
    by (simp add: result_path_def)
qed

section \<open>Properties of the hidden canvas\<close>

lemma concat_map_nth4:
  assumes "\<And>x. length (f x) = 4" and "i < length xs" and "j < 4"
  shows "concat (map f xs) ! (i * 4 + j) = f (xs ! i) ! j"
  using assms(2)
proof (induction xs arbitrary: i)
  case Nil
  then show ?case by simp
next
  case (Cons x xs)
  show ?case
  proof (cases i)
    case 0
    then show ?thesis
      using assms(1,3) by (simp add: nth_append)
  next
    case (Suc k)
    then have k: "k < length xs"
      using Cons.prems by simp
    have "concat (map f (x # xs)) ! (i * 4 + j) = concat (map f xs) ! (k * 4 + j)"
      using assms(1) by (simp add: nth_append Suc)
    then show ?thesis
      using Cons.IH [OF k] by (simp add: Suc)
  qed
qed

lemma length_concat_map4:
  assumes "\<And>x. length (f x) = 4"
  shows "length (concat (map f xs)) = length xs * 4"
  by (induction xs) (simp_all add: assms)

lemma length_getImageData: "length (getImageData sz bm) = sz * sz * 4"
  unfolding getImageData_def
  by (subst length_concat_map4) (simp_all split: prod.splits)

lemma getImageData_nth:
  assumes "col < sz" and "row < sz" and "j < 4"
  shows "getImageData sz bm ! ((row * sz + col) * 4 + j)
         = (case bm col row of (r, g, b, a) \<Rightarrow> [r, g, b, a]) ! j"
proof -
  have lt: "row * sz + col < sz * sz"
  proof -
    have "row * sz + col < row * sz + sz"
      using assms(1) by simp
    also have "\<dots> = (row + 1) * sz"
      by simp
    also have "\<dots> \<le> sz * sz"
      using assms(2) by (simp add: mult_le_mono1 del: add_mult_distrib mult_Suc)
    finally show ?thesis .
  qed
  have md: "(row * sz + col) mod sz = col" "(row * sz + col) div sz = row"
    using assms(1) by simp_all
  have "getImageData sz bm ! ((row * sz + col) * 4 + j)
        = (case bm (([0..<sz * sz] ! (row * sz + col)) mod sz)
                   (([0..<sz * sz] ! (row * sz + col)) div sz) of (r, g, b, a) \<Rightarrow> [r, g, b, a]) ! j"
    unfolding getImageData_def
    by (rule concat_map_nth4) (simp_all add: lt assms(3) split: prod.splits)
  then show ?thesis
    using lt md by simp
qed

lemma sample_on_bitmap:
  assumes "0 < resolution P"
    and "bm (nat (px (resolution P) x)) (nat (px (resolution P) y)) = (r, g, b, a)"
  shows "sample P (getImageData (resolution P) bm) x y
         = tone (invert P) (gamma P) (real (unat r)) (real (unat g)) (real (unat b))"
proof -
  let ?sz = "resolution P"
  let ?col = "nat (px ?sz x)" and ?row = "nat (px ?sz y)"
  let ?idx = "(px ?sz y * int ?sz + px ?sz x) * 4"
  have c: "int ?col = px ?sz x" and r: "int ?row = px ?sz y"
    by (simp_all add: px_nonneg)
  have cl: "?col < ?sz"
    using px_range(2) [OF assms(1), of x] assms(1) by (simp add: nat_less_iff)
  have rl: "?row < ?sz"
    using px_range(2) [OF assms(1), of y] assms(1) by (simp add: nat_less_iff)
  have n: "nat (?idx + int j) = (?row * ?sz + ?col) * 4 + j" for j
  proof -
    have "?idx + int j = int ((?row * ?sz + ?col) * 4 + j)"
      by (simp only: of_nat_add of_nat_mult of_nat_numeral c r)
    then show ?thesis
      by (simp only: nat_int)
  qed
  have n0: "nat ?idx = (?row * ?sz + ?col) * 4 + 0"
    using n [of 0] by simp
  have n1: "nat (?idx + 1) = (?row * ?sz + ?col) * 4 + 1"
    using n [of 1] by simp
  have n2: "nat (?idx + 2) = (?row * ?sz + ?col) * 4 + 2"
    using n [of 2] by simp
  show ?thesis
    unfolding sample_in_range [OF assms(1) length_getImageData] n0 n1 n2
    by (simp only: getImageData_nth [OF cl rl] assms(2)) simp
qed





section \<open>A render of three samples\<close>

lemma pi_ge_three: "3 \<le> pi"
proof -
  have "sin (pi / 6) \<le> pi / 6"
    by (rule sin_x_le_x) simp
  then show ?thesis
    by (simp add: sin_30)
qed

lemma px3_mid: "1 \<le> v \<Longrightarrow> v < 2 \<Longrightarrow> px 3 v = 1"
  by (simp add: px_def clamp_def floor_eq_iff)

lemma px3_hi: "2 \<le> v \<Longrightarrow> px 3 v = 2"
  by (simp add: px_def clamp_def)

lemma bitmap3_black: "prepare nearest img3 3 cleared 1 1 = (0, 0, 0, 255)"
  by (simp add: prepare_def drawImage_def fit_def touched_def nearest_def img3_def Let_def)

lemma bitmap3_white: "prepare nearest img3 3 cleared 2 1 = (255, 255, 255, 255)"
  by (simp add: prepare_def drawImage_def fit_def touched_def nearest_def img3_def Let_def)

lemma sample3_black:
  assumes "1 \<le> ix" "ix < 2" "1 \<le> iy" "iy < 2"
  shows "sample P3 data3 ix iy = Some 0"
proof -
  have r: "resolution P3 = 3" "0 < resolution P3"
    by (simp_all add: P3_def)
  have bm: "prepare nearest img3 3 cleared (nat (px (resolution P3) ix)) (nat (px (resolution P3) iy))
            = (0, 0, 0, 255)"
    unfolding r px3_mid [OF assms(1,2)] px3_mid [OF assms(3,4)] using bitmap3_black by simp
  have "sample P3 (getImageData (resolution P3) (prepare nearest img3 3 cleared)) ix iy = Some 0"
    unfolding sample_on_bitmap [of P3 "prepare nearest img3 3 cleared" ix iy, OF r(2) bm]
    by (simp add: tone_def luminance_def Math_pow_def clamp01_def clamp_def P3_def)
  then show ?thesis
    by (simp only: data3_def r)
qed

lemma sample3_white:
  assumes "2 \<le> ix" "1 \<le> iy" "iy < 2"
  shows "sample P3 data3 ix iy = Some 1"
proof -
  have r: "resolution P3 = 3" "0 < resolution P3"
    by (simp_all add: P3_def)
  have bm: "prepare nearest img3 3 cleared (nat (px (resolution P3) ix)) (nat (px (resolution P3) iy))
            = (255, 255, 255, 255)"
    unfolding r px3_hi [OF assms(1)] px3_mid [OF assms(2,3)] using bitmap3_white by simp
  have "sample P3 (getImageData (resolution P3) (prepare nearest img3 3 cleared)) ix iy = Some 1"
    unfolding sample_on_bitmap [of P3 "prepare nearest img3 3 cleared" ix iy, OF r(2) bm]
    by (simp add: tone_def luminance_def Math_pow_def clamp01_def clamp_def P3_def)
  then show ?thesis
    by (simp only: data3_def r)
qed


lemma P3_fields:
  "resolution P3 = 3" "minWidth P3 = 3 / 50" "maxWidth P3 = 21 / 50" "\<not> cropToCircle P3"
  "turns P3 = 1"
  by (simp_all add: P3_def)

lemma cos_lower: "1 - x\<^sup>2 / 2 \<le> cos (x::real)"
proof -
  have "\<bar>sin (x / 2)\<bar> \<le> \<bar>x / 2\<bar>"
    by (rule abs_sin_x_le_abs_x)
  then have "(sin (x / 2))\<^sup>2 \<le> (x / 2)\<^sup>2"
    by (rule abs_le_square_iff [THEN iffD1])
  moreover have "cos x = 1 - 2 * (sin (x / 2))\<^sup>2"
    using cos_double_sin [of "x / 2"] by simp
  ultimately show ?thesis
    by (simp add: power_divide)
qed

lemma b3: "b_of P3 = 80 / pi"
  by (simp add: b_of_def P3_def)

lemma r_bounds:
  shows "80 / pi * (3 / 200) \<le> 2 / 5" and "0 < 80 / pi * (3 / 200)"
    and "3 / 5 < 80 / pi * (3 / 100)" and "80 / pi * (3 / 100) \<le> 4 / 5"
  using pi_ge_three pi_less_4 by (simp_all add: field_simps)

lemma point3_0: "point P3 0 = (0, 0)"
  by (simp add: point_def)

lemma point3_1:
  "\<bar>fst (point P3 (3 / 200))\<bar> \<le> 2 / 5" "\<bar>snd (point P3 (3 / 200))\<bar> \<le> 2 / 5"
proof -
  let ?r = "80 / pi * (3 / 200)"
  have r: "0 < ?r" "?r \<le> 2 / 5"
    using r_bounds by simp_all
  have "\<bar>?r * cos (3 / 200)\<bar> \<le> ?r * 1"
    unfolding abs_mult using r(1) by (intro mult_mono) simp_all
  then show "\<bar>fst (point P3 (3 / 200))\<bar> \<le> 2 / 5"
    using r(2) by (simp add: point_def b3)
  have "\<bar>?r * sin (3 / 200)\<bar> \<le> ?r * 1"
    unfolding abs_mult using r(1) by (intro mult_mono) simp_all
  then show "\<bar>snd (point P3 (3 / 200))\<bar> \<le> 2 / 5"
    using r(2) by (simp add: point_def b3)
qed

lemma point3_2:
  "1 / 2 \<le> fst (point P3 (3 / 100))" "\<bar>snd (point P3 (3 / 100))\<bar> \<le> 2 / 5"
proof -
  let ?r = "80 / pi * (3 / 100)"
  have r: "3 / 5 < ?r" "?r \<le> 4 / 5"
    using r_bounds by simp_all
  have c: "(9 / 10 :: real) \<le> cos (3 / 100)"
    using cos_lower [of "3 / 100"] by (simp add: power2_eq_square)
  have e: "fst (point P3 (3 / 100)) = ?r * cos (3 / 100)"
    by (simp add: point_def b3)
  have "3 / 5 * (9 / 10) \<le> ?r * cos (3 / 100)"
    using r(1) c by (intro mult_mono) simp_all
  then show "1 / 2 \<le> fst (point P3 (3 / 100))"
    unfolding e by linarith
  have "\<bar>sin (3 / 100 :: real)\<bar> \<le> \<bar>3 / 100\<bar>"
    by (rule abs_sin_x_le_abs_x)
  then have "\<bar>?r * sin (3 / 100)\<bar> \<le> 4 / 5 * (3 / 100)"
    unfolding abs_mult using r by (intro mult_mono) simp_all
  then show "\<bar>snd (point P3 (3 / 100))\<bar> \<le> 2 / 5"
    by (simp add: point_def b3)
qed

lemma widthAt3_0: "widthAt P3 data3 0 = Some (21 / 50)"
proof -
  have "sample P3 data3 (3 / 2) (3 / 2) = Some 0"
    by (rule sample3_black) simp_all
  then show ?thesis
    by (simp add: widthAt_def point3_0 strokeWidth_def lerp_def P3_fields)
qed

lemma widthAt3_1: "widthAt P3 data3 (3 / 200) = Some (21 / 50)"
proof -
  obtain x y where p: "point P3 (3 / 200) = (x, y)"
    by (cases "point P3 (3 / 200)")
  have "\<bar>x\<bar> \<le> 2 / 5" "\<bar>y\<bar> \<le> 2 / 5"
    using point3_1 by (simp_all add: p)
  then have "sample P3 data3 (x + 3 / 2) (y + 3 / 2) = Some 0"
    by (intro sample3_black) linarith+
  then show ?thesis
    by (simp add: widthAt_def p strokeWidth_def lerp_def P3_fields)
qed

lemma widthAt3_2: "widthAt P3 data3 (3 / 100) = Some (3 / 50)"
proof -
  obtain x y where p: "point P3 (3 / 100) = (x, y)"
    by (cases "point P3 (3 / 100)")
  have "1 / 2 \<le> x" "\<bar>y\<bar> \<le> 2 / 5"
    using point3_2 by (simp_all add: p)
  then have "sample P3 data3 (x + 3 / 2) (y + 3 / 2) = Some 1"
    by (intro sample3_white) linarith+
  then show ?thesis
    by (simp add: widthAt_def p strokeWidth_def lerp_def P3_fields)
qed

lemma maxTheta3: "maxTheta P3 = Num (87 * pi / 8000)"
proof -
  have d: "js_div (maxR P3) (b_of P3) = Num (87 * pi / 8000)"
    by (simp add: js_div_def maxR_def b3 P3_fields)
  have "87 * pi / 8000 \<le> pi * 2"
    by simp
  then show ?thesis
    by (simp add: maxTheta_def d Math_min_def P3_fields)
qed

lemma maxTheta3_bounds: "3 / 100 < 87 * pi / 8000" "\<not> 9 / 200 < 87 * pi / 8000"
  using pi_ge_three pi_less_4 by simp_all

lemma spiral_pass:
  assumes "theta < mt"
  shows "spiral P data mt theta first c =
           spiral P data mt (theta + dTheta) False
             (if first then moveTo (fst (point P theta)) (snd (point P theta)) c
              else lineTo (fst (point P theta)) (snd (point P theta))
                     (set_lineWidth (widthAt P data theta) c))"
  using assms by (subst spiral.simps) (simp add: Let_def split_beta)

lemma spiral_stop:
  assumes "\<not> theta < mt"
  shows "spiral P data mt theta first c = c"
  using assms by (subst spiral.simps) simp

lemma walk3:
  "walk P3 data3 c =
     Some (lineTo (fst (point P3 (3 / 100))) (snd (point P3 (3 / 100)))
            (set_lineWidth (Some (3 / 50))
              (lineTo (fst (point P3 (3 / 200))) (snd (point P3 (3 / 200)))
                (set_lineWidth (Some (21 / 50)) (moveTo 0 0 c)))))"
proof -
  let ?mt = "87 * pi / 8000"
  have t0: "(0::real) < ?mt" and t1: "3 / 200 < ?mt" and t2: "3 / 100 < ?mt"
    and t3: "\<not> 9 / 200 < ?mt"
    using maxTheta3_bounds by simp_all
  have s0: "(0::real) + dTheta = 3 / 200" and s1: "3 / 200 + dTheta = 3 / 100"
    and s2: "3 / 100 + dTheta = 9 / 200"
    by (simp_all add: dTheta_def)
  show ?thesis
    unfolding walk_def maxTheta3 num.case
    unfolding spiral_pass [OF t0] s0 spiral_pass [OF t1] s1 spiral_pass [OF t2] s2
      spiral_stop [OF t3] widthAt3_1 widthAt3_2 point3_0
    by simp
qed


lemma render3:
  "renderSpiral nearest (Some img3) P3 (canvas0, cleared) =
     Inr (\<lparr> side = 3, gs = gstate0, stack = [],
            path = [MoveTo (3 / 2) (3 / 2),
                    LineTo (fst (point P3 (3 / 200)) + 3 / 2) (snd (point P3 (3 / 200)) + 3 / 2),
                    LineTo (fst (point P3 (3 / 100)) + 3 / 2) (snd (point P3 (3 / 100)) + 3 / 2)],
            painted =
              [FillRect ''#fff'' 0 0 3 3 [],
               Stroke [MoveTo (3 / 2) (3 / 2),
                       LineTo (fst (point P3 (3 / 200)) + 3 / 2) (snd (point P3 (3 / 200)) + 3 / 2),
                       LineTo (fst (point P3 (3 / 100)) + 3 / 2) (snd (point P3 (3 / 100)) + 3 / 2)]
                 (3 / 50) ''round'' ''round'' ''#000'' []] \<rparr>,
          prepare nearest img3 3 cleared)"
  unfolding renderSpiral_def
  by (simp add: Let_def P3_fields data3_def [symmetric] walk3 resize_def save_def restore_def
      fillRect_def beginPath_def translate_def stroke_def moveTo_def lineTo_def
      set_lineWidth_def gstate0_def)

text \<open>
  For every image and all controls: a render that returns has painted the background and
  one stroke, so that all segments of the spiral have one width.
\<close>

lemma spiral_painted: "painted (spiral P data mt theta first c) = painted c"
proof (induction P data mt theta first c rule: spiral.induct)
  case (1 P data mt theta first c)
  show ?case
  proof (cases "theta < mt")
    case True
    let ?c' = "if first then moveTo (fst (point P theta)) (snd (point P theta)) c
               else lineTo (fst (point P theta)) (snd (point P theta))
                      (set_lineWidth (widthAt P data theta) c)"
    have "painted (spiral P data mt (theta + dTheta) False ?c') = painted ?c'"
      using "1.IH" [OF True, of "point P theta" "fst (point P theta)" "snd (point P theta)"
          "widthAt P data theta" ?c']
      by simp
    moreover have "painted ?c' = painted c"
      by (simp add: moveTo_def lineTo_def set_lineWidth_def split: option.splits)
    ultimately show ?thesis
      by (simp only: spiral_pass [OF True])
  next
    case False
    then show ?thesis
      by (simp add: spiral_stop)
  qed
qed

lemma walk_painted: "walk P data c = Some c' \<Longrightarrow> painted c' = painted c"
  by (auto simp: walk_def spiral_painted split: num.splits)

lemma painted_ops:
  "painted (restore c) = painted c"
  "painted (save c) = painted c"
  "painted (beginPath c) = painted c"
  "painted (arc x y r a0 a1 c) = painted c"
  "painted (clip c) = painted c"
  "painted (translate tx ty c) = painted c"
  "painted (resize sz c) = []"
  "painted (stroke c) = painted c @ [Stroke (path c) (lineWidth (gs c)) (lineCap (gs c))
      (lineJoin (gs c)) (strokeStyle (gs c)) (clipRegion (gs c))]"
  "painted (fillRect x y w h c) = painted c @ [FillRect (fillStyle (gs c))
      (x + fst (origin (gs c))) (y + snd (origin (gs c))) w h (clipRegion (gs c))]"
  by (simp_all add: restore_def save_def beginPath_def arc_def clip_def translate_def
      resize_def stroke_def fillRect_def split: list.splits)

lemma gs_ops:
  "gs (save c) = gs c"
  "gs (resize sz c) = gstate0"
  by (simp_all add: save_def resize_def)

lemma render_one_width:
  assumes "renderSpiral dI (Some img) P s = Inr (c, h)"
  shows "\<exists>p w cap join style cl.
           painted c = [FillRect ''#fff'' 0 0 (real (resolution P)) (real (resolution P)) [],
                        Stroke p w cap join style cl]
           \<and> segment_widths (painted c) = replicate (segments p) w"
proof -
  obtain c0 h0 where s: "s = (c0, h0)"
    by (cases s)
  show ?thesis
    using assms unfolding s renderSpiral_def Let_def
    by (auto simp: painted_ops gs_ops gstate0_def
        dest!: walk_painted split: if_splits option.splits)
qed

text \<open>
  C1. The first sample only sets the starting point and every later sample sets
  \<open>lineWidth\<close> to its own width before its \<open>lineTo\<close>; but the path is stroked once, after
  the loop, with the line width of the last sample. At these controls the samples 1 and 2
  have the widths 0.42 and 0.06, and both segments are painted 0.06 wide: the width of
  sample 1 does not govern the segment from sample 0 to sample 1.
\<close>

theorem stroke_single_width:
  "widthAt P3 data3 (1 * dTheta) = Some (21 / 50)
   \<and> widthAt P3 data3 (2 * dTheta) = Some (3 / 50)
   \<and> map_option segment_widths
        (result_painted (renderSpiral nearest (Some img3) P3 (canvas0, cleared)))
       = Some [3 / 50, 3 / 50]"
proof -
  have d: "1 * dTheta = 3 / 200" "2 * dTheta = 3 / 100"
    by (simp_all add: dTheta_def)
  show ?thesis
    unfolding d render3
    by (simp add: widthAt3_1 widthAt3_2 result_painted_def segments_def)
qed

section \<open>The image on the hidden canvas\<close>











end
